theory Spec2Isabelle
  imports Complex_Main "HOL-Library.AList" "HOL-Library.Multiset"
begin

section \<open>Strings, errors and the Python runtime\<close>

text \<open>
  A Python \<open>str\<close> is a sequence of Unicode code points: a character is its code point,
  a string a list of them. \<open>ustr\<close> reads an ASCII literal as such a string.
\<close>

type_synonym uchar = nat
type_synonym ustring = "uchar list"

definition ustr :: "string \<Rightarrow> ustring" where
  "ustr s = map of_char s"

text \<open>The exceptions the modelled functions can raise.\<close>

datatype error = KeyError | ValueError | IndexError

text \<open>
  What the program takes from the Python runtime and not from its own source: the Unicode
  database outside Basic Latin (NFKD normalisation, lower-casing, general categories,
  white space) and the order in which a \<open>set\<close> of strings is iterated. CPython fixes that
  order by the strings' hashes, which are salted per process; \<open>set_rank\<close> stands for
  the salt's effect, and a set is iterated by increasing rank.
\<close>

record runtime =
  nfkd_ext :: "ustring \<Rightarrow> ustring"
  lower_ext :: "ustring \<Rightarrow> ustring"
  category_ext :: "uchar \<Rightarrow> string"
  isspace_ext :: "uchar \<Rightarrow> bool"
  set_rank :: "ustring \<Rightarrow> nat"

definition is_ascii :: "ustring \<Rightarrow> bool" where
  "is_ascii s = (\<forall>c \<in> set s. c < 128)"

text \<open>\<open>unicodedata.category\<close>: the table of Basic Latin, the runtime's beyond it.\<close>

definition ascii_category :: "uchar \<Rightarrow> string" where
  "ascii_category c =
     (if c < 32 then ''Cc'' else if c = 32 then ''Zs''
      else if c < 36 then ''Po'' else if c = 36 then ''Sc''
      else if c < 40 then ''Po'' else if c = 40 then ''Ps''
      else if c = 41 then ''Pe'' else if c = 42 then ''Po''
      else if c = 43 then ''Sm'' else if c = 44 then ''Po''
      else if c = 45 then ''Pd'' else if c < 48 then ''Po''
      else if c < 58 then ''Nd'' else if c < 60 then ''Po''
      else if c < 63 then ''Sm'' else if c < 65 then ''Po''
      else if c < 91 then ''Lu'' else if c = 91 then ''Ps''
      else if c = 92 then ''Po'' else if c = 93 then ''Pe''
      else if c = 94 then ''Sk'' else if c = 95 then ''Pc''
      else if c = 96 then ''Sk'' else if c < 123 then ''Ll''
      else if c = 123 then ''Ps'' else if c = 124 then ''Sm''
      else if c = 125 then ''Pe'' else if c = 126 then ''Sm''
      else ''Cc'')"

definition category :: "runtime \<Rightarrow> uchar \<Rightarrow> string" where
  "category rt c = (if c < 128 then ascii_category c else category_ext rt c)"

text \<open>\<open>unicodedata.normalize('NFKD', text)\<close>: the identity on ASCII text.\<close>

definition normalize_NFKD :: "runtime \<Rightarrow> ustring \<Rightarrow> ustring" where
  "normalize_NFKD rt s = (if is_ascii s then s else nfkd_ext rt s)"

text \<open>\<open>text.lower()\<close>: on ASCII text, the capitals \<open>A\<close> to \<open>Z\<close> move to \<open>a\<close> to \<open>z\<close>.\<close>

definition ascii_lower :: "uchar \<Rightarrow> uchar" where
  "ascii_lower c = (if 65 \<le> c \<and> c \<le> 90 then c + 32 else c)"

definition lower :: "runtime \<Rightarrow> ustring \<Rightarrow> ustring" where
  "lower rt s = (if is_ascii s then map ascii_lower s else lower_ext rt s)"

text \<open>\<open>str.isspace\<close> of one character, which \<open>str.split()\<close> separates at.\<close>

definition isspace :: "runtime \<Rightarrow> uchar \<Rightarrow> bool" where
  "isspace rt c =
     (if c < 128 then (9 \<le> c \<and> c \<le> 13) \<or> (28 \<le> c \<and> c \<le> 32) else isspace_ext rt c)"

text \<open>\<open>list(set(xs))\<close>: the elements of \<open>xs\<close>, each once, in the runtime's order.\<close>

definition list_of_set :: "runtime \<Rightarrow> ustring list \<Rightarrow> ustring list" where
  "list_of_set rt xs = sort_key (set_rank rt) (remdups xs)"

section \<open>Module constants\<close>

definition INITIATOR :: uchar where
  "INITIATOR = of_char CHR ''#''"

definition TERMINATOR :: uchar where
  "TERMINATOR = of_char CHR ''$''"

definition APOSTROPHE :: uchar where
  "APOSTROPHE = 39"

definition HYPHEN :: uchar where
  "HYPHEN = of_char CHR ''-''"

definition SPACE :: uchar where
  "SPACE = of_char CHR '' ''"

text \<open>
  \<open>UNICODE_FIXES\<close>: the left and right single quotation marks (U+2018, U+2019) become
  the apostrophe. \<open>CONTEXT_LENGTH\<close> is a module variable that the command line
  overwrites with any integer; every function below takes it as its argument \<open>cl\<close>.
\<close>

definition UNICODE_FIXES :: "uchar \<Rightarrow> uchar" where
  "UNICODE_FIXES c = (if c = 8216 \<or> c = 8217 then APOSTROPHE else c)"

section \<open>parse_words\<close>

text \<open>
  \<open>re.sub(r'-{2,}', ' ', text)\<close>: every maximal run of two or more hyphens becomes one
  space. \<open>n\<close> counts the hyphens of the run being read.
\<close>

fun flush_hyphens :: "nat \<Rightarrow> ustring" where
  "flush_hyphens 0 = []"
| "flush_hyphens (Suc 0) = [HYPHEN]"
| "flush_hyphens (Suc (Suc n)) = [SPACE]"

fun sub_hyphens :: "nat \<Rightarrow> ustring \<Rightarrow> ustring" where
  "sub_hyphens n [] = flush_hyphens n"
| "sub_hyphens n (c # cs) =
     (if c = HYPHEN then sub_hyphens (Suc n) cs
      else flush_hyphens n @ c # sub_hyphens 0 cs)"

text \<open>The test of step 2: letters, non-spacing marks, apostrophe and hyphen are kept.\<close>

definition keep_char :: "runtime \<Rightarrow> uchar \<Rightarrow> bool" where
  "keep_char rt c =
     (take 1 (category rt c) = ''L'' \<or> category rt c = ''Mn'' \<or> c \<in> {APOSTROPHE, HYPHEN})"

definition strip_special :: "runtime \<Rightarrow> ustring \<Rightarrow> ustring" where
  "strip_special rt text = map (\<lambda>c. if keep_char rt c then c else SPACE) text"

text \<open>\<open>text.split()\<close>: the maximal runs of characters that are not white space.\<close>

fun split_ws :: "(uchar \<Rightarrow> bool) \<Rightarrow> ustring \<Rightarrow> ustring \<Rightarrow> ustring list" where
  "split_ws sp cur [] = (if cur = [] then [] else [cur])"
| "split_ws sp cur (c # cs) =
     (if sp c then (if cur = [] then split_ws sp [] cs else cur # split_ws sp [] cs)
      else split_ws sp (cur @ [c]) cs)"

definition split :: "runtime \<Rightarrow> ustring \<Rightarrow> ustring list" where
  "split rt text = split_ws (isspace rt) [] text"

text \<open>\<open>word.strip(chars)\<close>: drops the characters of \<open>chars\<close> from both ends.\<close>

definition strip :: "ustring \<Rightarrow> ustring \<Rightarrow> ustring" where
  "strip chars s =
     rev (dropWhile (\<lambda>c. c \<in> set chars) (rev (dropWhile (\<lambda>c. c \<in> set chars) s)))"

text \<open>
  \<open>parse_words\<close>. The argument is \<open>None\<close> for Python's \<open>None\<close>, as is the result. No step
  raises on a \<open>str\<close>, so the \<open>except\<close> branch is not taken for the inputs modelled.
\<close>

definition collect_words :: "int \<Rightarrow> ustring list \<Rightarrow> ustring list" where
  "collect_words cl rawlist =
     filter (\<lambda>word. int (length word) > cl) (map (strip [HYPHEN]) rawlist)"

definition parse_words :: "runtime \<Rightarrow> int \<Rightarrow> ustring option \<Rightarrow> ustring list option" where
  "parse_words rt cl text0 =
     (case text0 of
        None \<Rightarrow> None
      | Some text \<Rightarrow>
          (let text = normalize_NFKD rt text;
               text = lower rt text;
               text = map UNICODE_FIXES text;
               text = sub_hyphens 0 text;
               text = strip_special rt text;
               rawlist = list_of_set rt (split rt text);
               wordlist = collect_words cl rawlist
           in Some (list_of_set rt wordlist)))"

section \<open>build_model\<close>

text \<open>
  A \<open>dict\<close> keeps its keys in insertion order, and \<open>random.choices\<close> reads them in
  that order: a dictionary is an association list, a new key is added at the end and an
  old one is overwritten in place (\<open>AList.update\<close>).
\<close>

type_synonym weights = "(uchar \<times> nat) list"
type_synonym model = "(ustring \<times> weights) list"

text \<open>
  \<open>s[-cl:]\<close>, for every integer \<open>cl\<close>: the last \<open>cl\<close> characters when \<open>cl\<close> is positive
  (all of \<open>s\<close> when it is shorter), and \<open>s[-cl:] = s[k:]\<close> for \<open>cl = -k \<le> 0\<close>.
\<close>

definition last_chars :: "int \<Rightarrow> ustring \<Rightarrow> ustring" where
  "last_chars cl s = (if 0 < cl then drop (length s - nat cl) s else drop (nat (- cl)) s)"

definition bounded :: "ustring \<Rightarrow> ustring" where
  "bounded word = INITIATOR # word @ [TERMINATOR]"

definition add_transition :: "model \<Rightarrow> ustring \<Rightarrow> uchar \<Rightarrow> model" where
  "add_transition m context letter =
     (let row = (case map_of m context of None \<Rightarrow> [] | Some r \<Rightarrow> r);
          row = (case map_of row letter of None \<Rightarrow> AList.update letter 0 row | Some n \<Rightarrow> row);
          row = (case map_of row letter of None \<Rightarrow> row | Some n \<Rightarrow> AList.update letter (n + 1) row)
      in AList.update context row m)"

definition build_word :: "int \<Rightarrow> model \<Rightarrow> ustring \<Rightarrow> model" where
  "build_word cl m word0 =
     (let word = bounded word0
      in foldl (\<lambda>m i. add_transition m (last_chars cl (take i word)) (word ! i))
           m [1 ..< length word])"

definition build_model :: "int \<Rightarrow> ustring list \<Rightarrow> model" where
  "build_model cl wordlist = foldl (build_word cl) [] wordlist"

section \<open>length_distribution\<close>

text \<open>
  Python's floats are read as real numbers: \<open>x ** 0.5\<close> is the square root and \<open>/\<close> the
  division of reals. \<open>max\<close> of no keys raises \<open>ValueError\<close>, so an empty word list does.
  The histogram is an insertion-ordered dictionary from length to count, then sorted by
  key; the running sum is appended once for each length from 1 to the largest.
\<close>

definition count_length :: "(nat \<times> nat) list \<Rightarrow> ustring \<Rightarrow> (nat \<times> nat) list" where
  "count_length distribution word =
     (let length = length word;
          distribution = (case map_of distribution length of
                            None \<Rightarrow> AList.update length 0 distribution
                          | Some n \<Rightarrow> distribution)
      in (case map_of distribution length of
            None \<Rightarrow> distribution
          | Some n \<Rightarrow> AList.update length (n + 1) distribution))"

definition cumulate :: "(nat \<times> nat) list \<Rightarrow> real list \<Rightarrow> nat \<Rightarrow> real list" where
  "cumulate distribution cumulative i =
     (let value = last cumulative;
          value = (case map_of distribution i of
                     None \<Rightarrow> value
                   | Some n \<Rightarrow> value + sqrt (real n / real (sum_list (map snd distribution))))
      in cumulative @ [value])"

definition length_distribution :: "ustring list \<Rightarrow> error + real list" where
  "length_distribution wordlist =
     (let distribution = foldl count_length [] wordlist;
          distribution = sort_key fst distribution
      in if distribution = [] then Inl ValueError
         else Inr (foldl (cumulate distribution) [0]
                     [1 ..< Max (set (map fst distribution)) + 1]))"

section \<open>random.choices\<close>

text \<open>
  The random source is the sequence of numbers that successive calls of \<open>random()\<close>
  return; \<open>random.choices\<close> with \<open>k = 1\<close> takes one. A run that needs more numbers than
  the sequence holds has not finished: its result is \<open>None\<close>. The definitions follow
  CPython's \<open>bisect.bisect_right\<close>, \<open>itertools.accumulate\<close> and \<open>Random.choices\<close>;
  a real total is always finite, so that check is not a branch here.
\<close>

function bisect_right :: "real list \<Rightarrow> real \<Rightarrow> nat \<Rightarrow> nat \<Rightarrow> nat" where
  "bisect_right a x lo hi =
     (if lo < hi then
        (let mid = (lo + hi) div 2
         in if x < a ! mid then bisect_right a x lo mid else bisect_right a x (mid + 1) hi)
      else lo)"
  by pat_completeness auto
termination
  by (relation "measure (\<lambda>(a, x, lo, hi). hi - lo)") auto

fun accumulate_from :: "real \<Rightarrow> real list \<Rightarrow> real list" where
  "accumulate_from s [] = []"
| "accumulate_from s (w # ws) = (s + w) # accumulate_from (s + w) ws"

definition accumulate :: "real list \<Rightarrow> real list" where
  "accumulate ws = accumulate_from 0 ws"

definition choices :: "'a list \<Rightarrow> real list \<Rightarrow> real list \<Rightarrow> (error + 'a \<times> real list) option" where
  "choices population weights rs =
     (let n = length population;
          cum_weights = accumulate weights
      in if length cum_weights \<noteq> n then Some (Inl ValueError)
         else if cum_weights = [] then Some (Inl IndexError)
         else if last cum_weights \<le> 0 then Some (Inl ValueError)
         else (case rs of
                 [] \<Rightarrow> None
               | r # rs' \<Rightarrow>
                   Some (Inr (population ! bisect_right cum_weights (r * last cum_weights) 0 (n - 1),
                              rs'))))"

section \<open>generate_word\<close>

text \<open>
  The weights handed to \<open>random.choices\<close> at one step: the counts of the context, and
  when the terminator is a key, a copy in which its count is multiplied by
  \<open>distribution[len(word)]\<close>, or by \<open>distribution[-1]\<close> (an \<open>IndexError\<close> on an empty
  distribution) when \<open>len(word)\<close> is no index of the distribution.
\<close>

definition terminator_weights ::
  "weights \<Rightarrow> real list \<Rightarrow> ustring \<Rightarrow> error + (uchar \<times> real) list" where
  "terminator_weights w distribution word =
     (let weights = map (\<lambda>(k, n). (k, real n)) w
      in case map_of weights TERMINATOR of
           None \<Rightarrow> Inr weights
         | Some v \<Rightarrow>
             if length word < length distribution
             then Inr (AList.update TERMINATOR (v * distribution ! length word) weights)
             else if distribution = [] then Inl IndexError
             else Inr (AList.update TERMINATOR (v * last distribution) weights))"

function generate_word_loop ::
  "int \<Rightarrow> model \<Rightarrow> real list \<Rightarrow> ustring \<Rightarrow> real list \<Rightarrow> (error + ustring \<times> real list) option" where
  "generate_word_loop cl model distribution word rs =
     (if word = [] then Some (Inl IndexError)
      else if last word = TERMINATOR then Some (Inr (word, rs))
      else (case map_of model (last_chars cl word) of
              None \<Rightarrow> Some (Inl KeyError)
            | Some w \<Rightarrow>
                (case terminator_weights w distribution word of
                   Inl e \<Rightarrow> Some (Inl e)
                 | Inr weights \<Rightarrow>
                     (case choices (map fst weights) (map snd weights) rs of
                        None \<Rightarrow> None
                      | Some (Inl e) \<Rightarrow> Some (Inl e)
                      | Some (Inr (c, rs')) \<Rightarrow>
                          generate_word_loop cl model distribution (word @ [c]) rs'))))"
  by pat_completeness auto
lemma choices_shorter:
  "choices population weights rs = Some (Inr (c, rs')) \<Longrightarrow> length rs' < length rs"
  unfolding choices_def Let_def by (cases rs) (simp_all split: if_splits)

termination generate_word_loop
  apply (relation "measure (\<lambda>(cl, model, distribution, word, rs). length rs)")
   apply simp
  apply (simp only: in_measure prod.case)
  apply (metis choices_shorter)
  done

declare generate_word_loop.simps [simp del]
declare bisect_right.simps [simp del]

definition generate_word ::
  "int \<Rightarrow> model \<Rightarrow> real list \<Rightarrow> real list \<Rightarrow> (error + ustring \<times> real list) option" where
  "generate_word cl model distribution rs =
     (case generate_word_loop cl model distribution [INITIATOR] rs of
        None \<Rightarrow> None
      | Some (Inl e) \<Rightarrow> Some (Inl e)
      | Some (Inr (word, rs')) \<Rightarrow> Some (Inr (strip [INITIATOR, TERMINATOR] word, rs')))"

section \<open>generate_words\<close>

lemma generate_word_loop_shorter:
  "generate_word_loop cl model distribution word rs = Some (Inr (w, rs')) \<Longrightarrow>
   length rs' \<le> length rs \<and> (word \<noteq> [] \<and> last word \<noteq> TERMINATOR \<longrightarrow> length rs' < length rs)"
proof (induction cl model distribution word rs rule: generate_word_loop.induct)
  case (1 cl model distribution word rs)
  show ?case
  proof (cases "word = [] \<or> last word = TERMINATOR")
    case True
    with "1.prems" show ?thesis
      by (auto simp: generate_word_loop.simps [of cl model distribution word rs] split: if_splits)
  next
    case False
    with "1.prems" obtain x2 b c rs1 where
      a: "map_of model (last_chars cl word) = Some x2"
      and b: "terminator_weights x2 distribution word = Inr b"
      and c: "choices (map fst b) (map snd b) rs = Some (Inr (c, rs1))"
      and d: "generate_word_loop cl model distribution (word @ [c]) rs1 = Some (Inr (w, rs'))"
      by (auto simp: generate_word_loop.simps [of cl model distribution word rs]
          split: option.splits sum.splits)
    from False have w1: "word \<noteq> []" and w2: "last word \<noteq> TERMINATOR" by auto
    from "1.IH" [OF w1 w2 a b c refl refl d]
    have "length rs' \<le> length rs1" by simp
    with choices_shorter [OF c] show ?thesis by simp
  qed
qed

lemma generate_word_shorter:
  "generate_word cl model distribution rs = Some (Inr (w, rs')) \<Longrightarrow> length rs' < length rs"
proof -
  assume "generate_word cl model distribution rs = Some (Inr (w, rs'))"
  then obtain word where
    "generate_word_loop cl model distribution [INITIATOR] rs = Some (Inr (word, rs'))"
    by (auto simp: generate_word_def split: option.splits sum.splits)
  from generate_word_loop_shorter [OF this] show ?thesis
    by (simp add: INITIATOR_def TERMINATOR_def)
qed

text \<open>
  The sampling loop of \<open>generate_words\<close>. \<open>json.dump\<close> of the model writes a file and
  changes nothing that the loop reads; it is not modelled.
\<close>

function generate_words_loop ::
  "int \<Rightarrow> ustring list \<Rightarrow> model \<Rightarrow> real list \<Rightarrow> int \<Rightarrow> ustring list \<Rightarrow> real list
     \<Rightarrow> (error + ustring list \<times> real list) option" where
  "generate_words_loop cl wordlist model distribution count' generated rs =
     (if int (length generated) < count' then
        (case generate_word cl model distribution rs of
           None \<Rightarrow> None
         | Some (Inl e) \<Rightarrow> Some (Inl e)
         | Some (Inr (word, rs')) \<Rightarrow>
             if word \<in> set wordlist \<or> word \<in> set generated
             then generate_words_loop cl wordlist model distribution count' generated rs'
             else generate_words_loop cl wordlist model distribution count' (generated @ [word]) rs')
      else Some (Inr (generated, rs)))"
  by pat_completeness auto
termination generate_words_loop
  apply (relation "measure (\<lambda>(cl, wordlist, model, distribution, count', generated, rs). length rs)")
    apply simp
   apply (simp only: in_measure prod.case)
   apply (metis generate_word_shorter)
  apply (simp only: in_measure prod.case)
  apply (metis generate_word_shorter)
  done

declare generate_words_loop.simps [simp del]

definition generate_words ::
  "runtime \<Rightarrow> int \<Rightarrow> ustring option \<Rightarrow> int \<Rightarrow> real list
     \<Rightarrow> (error + ustring list option \<times> real list) option" where
  "generate_words rt cl text count' rs =
     (case parse_words rt cl text of
        None \<Rightarrow> Some (Inr (None, rs))
      | Some wordlist \<Rightarrow>
          (let model = build_model cl wordlist
           in case length_distribution wordlist of
                Inl e \<Rightarrow> Some (Inl e)
              | Inr distribution \<Rightarrow>
                  (case generate_words_loop cl wordlist model distribution count' [] rs of
                     None \<Rightarrow> None
                   | Some (Inl e) \<Rightarrow> Some (Inl e)
                   | Some (Inr (generated, rs')) \<Rightarrow> Some (Inr (Some generated, rs')))))"

section \<open>Two concrete runtimes\<close>

text \<open>
  Two processes that agree on the Unicode database and differ in the hash salt only:
  \<open>runtime_A\<close> ranks all strings alike, so a set is iterated in insertion order, and
  \<open>runtime_B\<close> iterates \<open>"abc"\<close> after every other string.
\<close>

definition runtime_A :: runtime where
  "runtime_A = \<lparr>nfkd_ext = (\<lambda>s. s), lower_ext = (\<lambda>s. s), category_ext = (\<lambda>c. ''Cn''),
     isspace_ext = (\<lambda>c. False), set_rank = (\<lambda>s. 0)\<rparr>"

definition runtime_B :: runtime where
  "runtime_B = \<lparr>nfkd_ext = (\<lambda>s. s), lower_ext = (\<lambda>s. s), category_ext = (\<lambda>c. ''Cn''),
     isspace_ext = (\<lambda>c. False), set_rank = (\<lambda>s. if s = [97, 98, 99] then 1 else 0)\<rparr>"

section \<open>Properties\<close>

lemma ustr_simps [simp]:
  "ustr [] = []" "ustr (c # s) = of_char c # ustr s"
  by (simp_all add: ustr_def)

subsection \<open>Evaluating the normaliser on ASCII text\<close>

lemmas char_defs = INITIATOR_def TERMINATOR_def APOSTROPHE_def HYPHEN_def SPACE_def

lemma is_ascii_simps [simp]: "is_ascii [] = True" "is_ascii (c # cs) = (c < 128 \<and> is_ascii cs)"
  by (auto simp: is_ascii_def)

lemma keep_char_ascii:
  "c < 128 \<Longrightarrow>
   keep_char rt c = ((65 \<le> c \<and> c \<le> 90) \<or> (97 \<le> c \<and> c \<le> 122) \<or> c = 39 \<or> c = 45)"
  by (auto simp: keep_char_def category_def ascii_category_def char_defs)

lemma strip_special_ascii:
  "is_ascii s \<Longrightarrow> strip_special rt s =
     map (\<lambda>c. if (65 \<le> c \<and> c \<le> 90) \<or> (97 \<le> c \<and> c \<le> 122) \<or> c = 39 \<or> c = 45
               then c else 32) s"
  unfolding strip_special_def is_ascii_def
  by (rule map_cong) (simp_all add: keep_char_ascii SPACE_def)

lemma split_ws_ascii:
  "is_ascii cs \<Longrightarrow> split_ws (isspace rt) cur cs =
     split_ws (\<lambda>c. (9 \<le> c \<and> c \<le> 13) \<or> (28 \<le> c \<and> c \<le> 32)) cur cs"
  by (induction cs arbitrary: cur) (simp_all add: isspace_def)

lemma split_ascii:
  "is_ascii s \<Longrightarrow>
   split rt s = split_ws (\<lambda>c. (9 \<le> c \<and> c \<le> 13) \<or> (28 \<le> c \<and> c \<le> 32)) [] s"
  by (simp add: split_def split_ws_ascii)

lemmas parse_eval =
  parse_words_def normalize_NFKD_def lower_def ascii_lower_def UNICODE_FIXES_def char_defs
  strip_special_ascii split_ascii list_of_set_def collect_words_def strip_def

lemma parse_abc_bcd_A:
  "parse_words runtime_A 2 (Some (ustr ''abc bcd'')) = Some [ustr ''abc'', ustr ''bcd'']"
  by (simp add: parse_eval runtime_A_def)

lemma parse_abc_bcd_B:
  "parse_words runtime_B 2 (Some (ustr ''abc bcd'')) = Some [ustr ''bcd'', ustr ''abc'']"
  by (simp add: parse_eval runtime_B_def)

subsection \<open>The word set\<close>

lemma set_list_of_set [simp]: "set (list_of_set rt xs) = set xs"
  by (simp add: list_of_set_def)

lemma distinct_list_of_set [simp]: "distinct (list_of_set rt xs)"
  by (simp add: list_of_set_def)

lemma split_ws_chars:
  "t \<in> set (split_ws sp cur cs) \<Longrightarrow> c \<in> set t \<Longrightarrow> c \<in> set cur \<or> (c \<in> set cs \<and> \<not> sp c)"
  by (induction sp cur cs rule: split_ws.induct) (auto split: if_splits)

lemma isspace_SPACE: "isspace rt SPACE"
  by (simp add: isspace_def SPACE_def)

lemma split_strip_special_chars:
  assumes "t \<in> set (split rt (strip_special rt text))" and "c \<in> set t"
  shows "keep_char rt c"
proof -
  from split_ws_chars [OF assms [unfolded split_def]]
  have "c \<in> set (strip_special rt text)" and "\<not> isspace rt c" by auto
  then show ?thesis
    using isspace_SPACE [of rt] by (auto simp: strip_special_def split: if_splits)
qed

lemma set_strip: "set (strip chars s) \<subseteq> set s"
proof -
  have "set (strip chars s) \<subseteq> set (rev (dropWhile (\<lambda>c. c \<in> set chars) s))"
    unfolding strip_def using set_dropWhileD by fastforce
  also have "\<dots> \<subseteq> set s"
    using set_dropWhileD by fastforce
  finally show ?thesis .
qed

lemma parse_words_set:
  "parse_words rt cl (Some text) = Some wl \<Longrightarrow>
   set wl = {w \<in> strip [HYPHEN] ` set (split rt (strip_special rt (sub_hyphens 0
       (map UNICODE_FIXES (lower rt (normalize_NFKD rt text)))))). cl < int (length w)}"
  by (auto simp: parse_words_def Let_def collect_words_def)

lemma parse_words_distinct: "parse_words rt cl text = Some wl \<Longrightarrow> distinct wl"
  by (auto simp: parse_words_def Let_def split: option.splits)

text \<open>
  C6. Whatever the text, every word that \<open>parse_words\<close> returns is made of letters
  (a category starting with \<open>L\<close>), non-spacing marks (\<open>Mn\<close>), apostrophes and hyphens
  only, is strictly longer than the context length, and occurs once in the list.
\<close>

theorem parse_words_wellformed:
  assumes "parse_words rt cl text = Some wl"
  shows "(\<forall>w \<in> set wl. (\<forall>c \<in> set w. keep_char rt c) \<and> cl < int (length w)) \<and> distinct wl"
proof -
  from assms obtain t where t: "text = Some t"
    by (cases "text") (simp_all add: parse_words_def)
  note wl = parse_words_set [OF assms [unfolded t]]
  have "keep_char rt c" if "w \<in> set wl" "c \<in> set w" for w c
  proof -
    from that(1) wl obtain tok where
      tok: "tok \<in> set (split rt (strip_special rt (sub_hyphens 0
              (map UNICODE_FIXES (lower rt (normalize_NFKD rt t))))))"
      and w: "w = strip [HYPHEN] tok"
      by auto
    from that(2) w set_strip have "c \<in> set tok" by blast
    with tok show ?thesis by (rule split_strip_special_chars)
  qed
  moreover have "cl < int (length w)" if "w \<in> set wl" for w
    using that wl by simp
  ultimately show ?thesis using parse_words_distinct [OF assms] by blast
qed

theorem parse_words_wellformed_witness:
  "parse_words runtime_A 2 (Some (ustr ''abc bcd'')) = Some [ustr ''abc'', ustr ''bcd'']
   \<and> keep_char runtime_A (of_char CHR ''a'') \<and> keep_char runtime_A (of_char CHR ''d'')
   \<and> (2::int) < int (length (ustr ''abc'')) \<and> distinct [ustr ''abc'', ustr ''bcd'']"
  using parse_words_wellformed [OF parse_abc_bcd_A] parse_abc_bcd_A by simp

subsection \<open>Absent and empty input\<close>

text \<open>
  C4, as the code has it. Absent input (\<open>None\<close>) gives \<open>None\<close> from \<open>parse_words\<close> and
  from \<open>generate_words\<close>, with no exception and no random number taken; the empty string
  is not absent, and \<open>parse_words\<close> returns the empty word list for it.
\<close>

theorem absent_input_is_None:
  "parse_words rt cl None = None
   \<and> generate_words rt cl None n rs = Some (Inr (None, rs))
   \<and> parse_words rt cl (Some []) = Some []"
  by (simp add: generate_words_def parse_words_def normalize_NFKD_def lower_def
      strip_special_def split_def list_of_set_def collect_words_def)

theorem absent_input_is_None_witness:
  "parse_words runtime_A 2 None = None
   \<and> generate_words runtime_A 2 None 3 [1 / 2] = Some (Inr (None, [1 / 2]))
   \<and> parse_words runtime_A 2 (Some []) = Some []"
  by (rule absent_input_is_None)

lemma length_distribution_Nil: "length_distribution [] = Inl ValueError"
  by (simp add: length_distribution_def)

text \<open>
  The empty string against C4 as stated: \<open>parse_words\<close> returns a list, not \<open>None\<close>, and
  \<open>generate_words\<close> then raises the \<open>ValueError\<close> of \<open>max\<close> on no word lengths.
\<close>

theorem empty_string_counterexample:
  "parse_words runtime_A 2 (Some (ustr '''')) = Some []
   \<and> generate_words runtime_A 2 (Some (ustr '''')) 1 [] = Some (Inl ValueError)"
  by (simp add: generate_words_def length_distribution_Nil parse_words_def normalize_NFKD_def
      lower_def strip_special_def split_def list_of_set_def collect_words_def)

subsection \<open>The chain model as a table of transitions\<close>

lemma update_absent: "map_of al k = None \<Longrightarrow> AList.update k v al = al @ [(k, v)]"
  by (induction al) (auto split: if_splits)

lemma update_append_absent:
  "map_of al k = None \<Longrightarrow> AList.update k v (al @ [(k, u)]) = al @ [(k, v)]"
  by (induction al) (auto split: if_splits)

lemma map_of_append_absent: "map_of al k = None \<Longrightarrow> map_of (al @ [(k, u)]) k = Some u"
  by (induction al) (auto split: if_splits)

lemma add_transition_eq:
  "add_transition m context letter =
     AList.update context
       (case map_of m context of
          None \<Rightarrow> [(letter, 1)]
        | Some r \<Rightarrow> (case map_of r letter of
                       None \<Rightarrow> r @ [(letter, 1)]
                     | Some n \<Rightarrow> AList.update letter (n + 1) r)) m"
proof -
  have row: "(case map_of (case map_of r letter of None \<Rightarrow> AList.update letter 0 r | Some n \<Rightarrow> r) letter of
               None \<Rightarrow> (case map_of r letter of None \<Rightarrow> AList.update letter 0 r | Some n \<Rightarrow> r)
             | Some n \<Rightarrow> AList.update letter (n + 1)
                 (case map_of r letter of None \<Rightarrow> AList.update letter 0 r | Some n \<Rightarrow> r))
           = (case map_of r letter of None \<Rightarrow> r @ [(letter, 1)]
              | Some n \<Rightarrow> AList.update letter (n + 1) r)" for r :: weights
  proof (cases "map_of r letter")
    case None
    have a: "AList.update letter 0 r = r @ [(letter, 0)]"
      by (rule update_absent [OF None])
    have b: "map_of (r @ [(letter, 0::nat)]) letter = Some 0"
      by (rule map_of_append_absent [OF None])
    show ?thesis
      unfolding None option.case a b by (simp add: update_append_absent [OF None])
  next
    case (Some n)
    then show ?thesis by simp
  qed
  show ?thesis
  proof (cases "map_of m context")
    case None
    with row [of "[]"] show ?thesis by (simp add: add_transition_def Let_def)
  next
    case (Some a)
    with row [of a] show ?thesis by (simp add: add_transition_def Let_def)
  qed
qed

definition transitions :: "int \<Rightarrow> ustring \<Rightarrow> (ustring \<times> uchar) list" where
  "transitions cl word =
     map (\<lambda>i. (last_chars cl (take i (bounded word)), bounded word ! i))
       [1 ..< length (bounded word)]"

lemma foldl_map_apply: "foldl (\<lambda>a x. f a (g x)) a xs = foldl f a (map g xs)"
  by (induction xs arbitrary: a) simp_all

lemma build_word_transitions:
  "build_word cl m word = foldl (\<lambda>m (k, c). add_transition m k c) m (transitions cl word)"
  unfolding build_word_def Let_def transitions_def
  by (simp add: foldl_map_apply [symmetric])

lemma build_model_transitions:
  "foldl (build_word cl) m wordlist =
     foldl (\<lambda>m (k, c). add_transition m k c) m (concat (map (transitions cl) wordlist))"
  by (induction wordlist arbitrary: m) (simp_all add: build_word_transitions)

text \<open>The keys of the model and the characters recorded under each key.\<close>

definition keys :: "('k \<times> 'v) list \<Rightarrow> 'k set" where
  "keys d = fst ` set d"

definition pairs :: "model \<Rightarrow> (ustring \<times> uchar) set" where
  "pairs m = {(k, c). \<exists>r. map_of m k = Some r \<and> c \<in> keys r}"

lemma keys_update [simp]: "keys (AList.update k v al) = insert k (keys al)"
  by (simp add: keys_def dom_update)

lemma keys_simps [simp]: "keys [] = {}" "keys (p # al) = insert (fst p) (keys al)"
  "keys (al @ bl) = keys al \<union> keys bl"
  by (auto simp: keys_def)

lemma keys_map_of: "(k \<in> keys al) = (map_of al k \<noteq> None)"
  by (simp add: keys_def map_of_eq_None_iff)

lemma pairs_add_transition: "pairs (add_transition m k c) = insert (k, c) (pairs m)"
proof -
  have "keys (case map_of m k of None \<Rightarrow> [(c, 1)]
              | Some r \<Rightarrow> (case map_of r c of None \<Rightarrow> r @ [(c, 1)]
                           | Some n \<Rightarrow> AList.update c (n + 1) r))
        = insert c (case map_of m k of None \<Rightarrow> {} | Some r \<Rightarrow> keys r)"
    by (auto split: option.splits)
  then show ?thesis
    unfolding pairs_def add_transition_eq
    by (auto simp: update_conv' split: option.splits if_splits)
qed

lemma pairs_Nil [simp]: "pairs [] = {}"
  by (simp add: pairs_def)

lemma pairs_foldl:
  "pairs (foldl (\<lambda>m (k, c). add_transition m k c) m ts) = pairs m \<union> set ts"
  by (induction ts arbitrary: m) (auto simp: pairs_add_transition)

lemma pairs_build_model:
  "pairs (build_model cl wordlist) = (\<Union>w \<in> set wordlist. set (transitions cl w))"
  by (simp add: build_model_def build_model_transitions pairs_foldl)

lemma keys_add_transition: "keys (add_transition m k c) = insert k (keys m)"
  by (simp add: add_transition_eq)

lemma keys_foldl:
  "keys (foldl (\<lambda>m (k, c). add_transition m k c) m ts) = keys m \<union> fst ` set ts"
  by (induction ts arbitrary: m) (auto simp: keys_add_transition)

lemma keys_build_model:
  "keys (build_model cl wordlist) = (\<Union>w \<in> set wordlist. fst ` set (transitions cl w))"
  by (auto simp: build_model_def build_model_transitions keys_foldl)

subsection \<open>Counts of the chain model\<close>

definition model_count :: "model \<Rightarrow> ustring \<Rightarrow> uchar \<Rightarrow> nat" where
  "model_count m k c =
     (case map_of m k of None \<Rightarrow> 0 | Some r \<Rightarrow> (case map_of r c of None \<Rightarrow> 0 | Some n \<Rightarrow> n))"

lemma map_of_append_other: "k' \<noteq> k \<Longrightarrow> map_of (al @ [(k, u)]) k' = map_of al k'"
  by (induction al) auto

lemma model_count_add_transition:
  "model_count (add_transition m k c) k' c' =
     model_count m k' c' + (if k' = k \<and> c' = c then 1 else 0)"
proof (cases "k' = k")
  case False
  then show ?thesis by (simp add: model_count_def add_transition_eq update_conv')
next
  case True
  show ?thesis
  proof (cases "c' = c")
    case True
    with \<open>k' = k\<close> show ?thesis
      by (auto simp: model_count_def add_transition_eq update_conv' map_add_def
          split: option.splits)
  next
    case False
    with \<open>k' = k\<close> show ?thesis
      by (auto simp: model_count_def add_transition_eq update_conv' map_add_def
          split: option.splits)
  qed
qed

lemma model_count_foldl:
  "model_count (foldl (\<lambda>m (k, c). add_transition m k c) m ts) k c =
     model_count m k c + count_list ts (k, c)"
  by (induction ts arbitrary: m) (auto simp: model_count_add_transition split: if_splits)

lemma count_list_concat:
  "count_list (concat xss) x = sum_list (map (\<lambda>xs. count_list xs x) xss)"
  by (induction xss) simp_all

lemma model_count_build_model:
  "model_count (build_model cl wordlist) k c =
     sum_list (map (\<lambda>w. count_list (transitions cl w) (k, c)) wordlist)"
proof -
  have "model_count [] k c = 0" by (simp add: model_count_def)
  then show ?thesis
    by (simp add: build_model_def build_model_transitions model_count_foldl count_list_concat
        comp_def)
qed

text \<open>
  For a word list without repetitions the counts depend on the set of words only, not on
  the order in which the list holds them.
\<close>

lemma model_count_set:
  "distinct wordlist \<Longrightarrow>
   model_count (build_model cl wordlist) k c =
     (\<Sum>w \<in> set wordlist. count_list (transitions cl w) (k, c))"
  by (simp add: model_count_build_model sum.distinct_set_conv_list)

text \<open>Every dictionary of the model has each key once, and every count is positive.\<close>

definition wf_row :: "weights \<Rightarrow> bool" where
  "wf_row r = (distinct (map fst r) \<and> (\<forall>c n. map_of r c = Some n \<longrightarrow> 0 < n))"

definition wf_model :: "model \<Rightarrow> bool" where
  "wf_model m = (distinct (map fst m) \<and> (\<forall>k r. map_of m k = Some r \<longrightarrow> wf_row r))"

lemma wf_row_update: "wf_row r \<Longrightarrow> 0 < v \<Longrightarrow> wf_row (AList.update c v r)"
  by (simp add: wf_row_def update_conv' distinct_update)

lemma wf_row_append: "wf_row r \<Longrightarrow> map_of r c = None \<Longrightarrow> 0 < v \<Longrightarrow> wf_row (r @ [(c, v)])"
  using wf_row_update [of r v c] by (simp add: update_absent)

lemma wf_row_single: "0 < v \<Longrightarrow> wf_row [(c, v)]"
  by (simp add: wf_row_def)

lemma wf_model_add_transition:
  assumes "wf_model m"
  shows "wf_model (add_transition m k c)"
proof -
  let ?row = "case map_of m k of None \<Rightarrow> [(c, 1)]
              | Some r \<Rightarrow> (case map_of r c of None \<Rightarrow> r @ [(c, 1)]
                           | Some n \<Rightarrow> AList.update c (n + 1) r)"
  have "wf_row ?row"
    using assms
    by (auto simp: wf_model_def wf_row_single wf_row_append wf_row_update split: option.splits)
  with assms show ?thesis
    unfolding add_transition_eq wf_model_def
    by (simp add: update_conv' distinct_update)
qed

lemma wf_model_foldl:
  "wf_model m \<Longrightarrow> wf_model (foldl (\<lambda>m (k, c). add_transition m k c) m ts)"
  by (induction ts arbitrary: m) (auto simp: wf_model_add_transition)

lemma wf_model_build_model: "wf_model (build_model cl wordlist)"
proof -
  have "wf_model []" by (simp add: wf_model_def)
  then show ?thesis
    by (simp add: build_model_def build_model_transitions wf_model_foldl)
qed

lemma row_singleton:
  assumes "distinct (map fst r)" and "keys r = {c}"
  shows "r = [(c, the (map_of r c))]"
proof (cases r)
  case Nil
  with assms show ?thesis by simp
next
  case (Cons p r')
  with assms have p: "fst p = c" and "keys r' \<subseteq> {c}" and "c \<notin> keys r'"
    by (auto simp: keys_def)
  then have "keys r' = {}" by auto
  then have "r' = []" by (simp add: keys_def)
  with Cons p show ?thesis by (cases p) simp
qed

lemma model_row_singleton:
  assumes "(k, c) \<in> pairs (build_model cl wl)"
    and "\<And>c'. (k, c') \<in> pairs (build_model cl wl) \<Longrightarrow> c' = c"
  shows "map_of (build_model cl wl) k = Some [(c, model_count (build_model cl wl) k c)]"
proof -
  from assms(1) obtain r where r: "map_of (build_model cl wl) k = Some r" and c: "c \<in> keys r"
    by (auto simp: pairs_def)
  from assms(2) r have "keys r \<subseteq> {c}" by (auto simp: pairs_def)
  with c have "keys r = {c}" by auto
  moreover from wf_model_build_model [of cl wl] r have "distinct (map fst r)"
    by (auto simp: wf_model_def wf_row_def)
  ultimately have "r = [(c, the (map_of r c))]" by (rule row_singleton [rotated])
  moreover have "model_count (build_model cl wl) k c = the (map_of r c)"
    using r c by (auto simp: model_count_def keys_map_of)
  ultimately show ?thesis using r by simp
qed

subsection \<open>The example of four words\<close>

lemma parse_words_set_eval:
  "parse_words rt cl (Some text) = Some wl \<Longrightarrow>
   set wl = set (collect_words cl (split rt (strip_special rt (sub_hyphens 0
       (map UNICODE_FIXES (lower rt (normalize_NFKD rt text)))))))"
  by (auto simp: parse_words_def Let_def collect_words_def)

lemmas transitions_eval = transitions_def bounded_def last_chars_def char_defs upt_rec

lemma transitions_cat:
  "transitions 2 (ustr ''cat'') =
     [(ustr ''#'', 99), (ustr ''#c'', 97), (ustr ''ca'', 116), (ustr ''at'', 36)]"
  by (simp add: transitions_eval)

lemma transitions_cats:
  "transitions 2 (ustr ''cats'') =
     [(ustr ''#'', 99), (ustr ''#c'', 97), (ustr ''ca'', 116), (ustr ''at'', 115),
      (ustr ''ts'', 36)]"
  by (simp add: transitions_eval)

lemma transitions_dog:
  "transitions 2 (ustr ''dog'') =
     [(ustr ''#'', 100), (ustr ''#d'', 111), (ustr ''do'', 103), (ustr ''og'', 36)]"
  by (simp add: transitions_eval)

lemma transitions_dogs:
  "transitions 2 (ustr ''dogs'') =
     [(ustr ''#'', 100), (ustr ''#d'', 111), (ustr ''do'', 103), (ustr ''og'', 115),
      (ustr ''gs'', 36)]"
  by (simp add: transitions_eval)

lemma cat_dog_words:
  assumes "parse_words rt 2 (Some (ustr ''cat cats dog dogs'')) = Some wl"
  shows "set wl = {ustr ''cat'', ustr ''cats'', ustr ''dog'', ustr ''dogs''}"
  using parse_words_set_eval [OF assms]
  by (simp add: normalize_NFKD_def lower_def ascii_lower_def UNICODE_FIXES_def char_defs
      strip_special_ascii split_ascii collect_words_def strip_def)

lemma cat_dog_model:
  assumes "parse_words rt 2 (Some (ustr ''cat cats dog dogs'')) = Some wl"
  shows "map_of (build_model 2 wl) (ustr ''#c'') = Some [(of_char CHR ''a'', 2)]"
    and "map_of (build_model 2 wl) (ustr ''ca'') = Some [(of_char CHR ''t'', 2)]"
proof -
  note wl = cat_dog_words [OF assms]
  note d = parse_words_distinct [OF assms]
  note tr = transitions_cat [simplified] transitions_cats [simplified]
    transitions_dog [simplified] transitions_dogs [simplified]
  have p: "pairs (build_model 2 wl) =
      set (transitions 2 (ustr ''cat'')) \<union> set (transitions 2 (ustr ''cats''))
      \<union> set (transitions 2 (ustr ''dog'')) \<union> set (transitions 2 (ustr ''dogs''))"
    unfolding pairs_build_model wl by auto
  have n: "model_count (build_model 2 wl) k c =
      count_list (transitions 2 (ustr ''cat'')) (k, c)
      + count_list (transitions 2 (ustr ''cats'')) (k, c)
      + count_list (transitions 2 (ustr ''dog'')) (k, c)
      + count_list (transitions 2 (ustr ''dogs'')) (k, c)" for k c
    unfolding model_count_set [OF d] wl by simp
  have "map_of (build_model 2 wl) (ustr ''#c'')
      = Some [(97, model_count (build_model 2 wl) (ustr ''#c'') 97)]"
    by (rule model_row_singleton) (simp_all add: p tr)
  then show "map_of (build_model 2 wl) (ustr ''#c'') = Some [(of_char CHR ''a'', 2)]"
    by (simp add: n tr)
  have "map_of (build_model 2 wl) (ustr ''ca'')
      = Some [(116, model_count (build_model 2 wl) (ustr ''ca'') 116)]"
    by (rule model_row_singleton) (simp_all add: p tr)
  then show "map_of (build_model 2 wl) (ustr ''ca'') = Some [(of_char CHR ''t'', 2)]"
    by (simp add: n tr)
qed

lemma parse_cat_dog_A:
  "parse_words runtime_A 2 (Some (ustr ''cat cats dog dogs''))
     = Some [ustr ''cat'', ustr ''cats'', ustr ''dog'', ustr ''dogs'']"
  by (simp add: parse_eval runtime_A_def)

text \<open>
  C3, as the code has it. The text \<open>"cat cats dog dogs"\<close> with context length 2 gives the
  word set \<open>{"cat", "cats", "dog", "dogs"}\<close>, in whatever order the set is listed, and the
  model maps \<open>"#c"\<close> to \<open>{"a": 2}\<close> and \<open>"ca"\<close> to \<open>{"t": 2}\<close>: both \<open>"cat"\<close> and \<open>"cats"\<close>
  count.
\<close>

theorem cat_cats_dog_dogs_model:
  assumes "parse_words rt 2 (Some (ustr ''cat cats dog dogs'')) = Some wl"
  shows "set wl = {ustr ''cat'', ustr ''cats'', ustr ''dog'', ustr ''dogs''}
    \<and> map_of (build_model 2 wl) (ustr ''#c'') = Some [(of_char CHR ''a'', 2)]
    \<and> map_of (build_model 2 wl) (ustr ''ca'') = Some [(of_char CHR ''t'', 2)]"
  using cat_dog_words [OF assms] cat_dog_model [OF assms] by simp

theorem cat_cats_dog_dogs_model_witness:
  "parse_words runtime_A 2 (Some (ustr ''cat cats dog dogs''))
     = Some [ustr ''cat'', ustr ''cats'', ustr ''dog'', ustr ''dogs'']
   \<and> map_of (build_model 2 [ustr ''cat'', ustr ''cats'', ustr ''dog'', ustr ''dogs''])
        (ustr ''#c'') = Some [(of_char CHR ''a'', 2)]
   \<and> map_of (build_model 2 [ustr ''cat'', ustr ''cats'', ustr ''dog'', ustr ''dogs''])
        (ustr ''ca'') = Some [(of_char CHR ''t'', 2)]"
  using cat_cats_dog_dogs_model [OF parse_cat_dog_A] parse_cat_dog_A by simp

text \<open>Against C3 as stated: the count under \<open>"#c"\<close> is 2, not 1.\<close>

theorem cat_count_counterexample:
  "parse_words runtime_A 2 (Some (ustr ''cat cats dog dogs''))
     = Some [ustr ''cat'', ustr ''cats'', ustr ''dog'', ustr ''dogs'']
   \<and> map_of (build_model 2 [ustr ''cat'', ustr ''cats'', ustr ''dog'', ustr ''dogs''])
        (ustr ''#c'') \<noteq> Some [(of_char CHR ''a'', 1)]"
  using cat_dog_model(1) [OF parse_cat_dog_A] parse_cat_dog_A by simp

subsection \<open>The length distribution\<close>

lemma count_length_eq:
  "count_length distribution word =
     (case map_of distribution (length word) of
        None \<Rightarrow> distribution @ [(length word, 1)]
      | Some n \<Rightarrow> AList.update (length word) (n + 1) distribution)"
proof (cases "map_of distribution (length word)")
  case None
  have a: "AList.update (length word) 0 distribution = distribution @ [(length word, 0)]"
    by (rule update_absent [OF None])
  have b: "map_of (distribution @ [(length word, 0::nat)]) (length word) = Some 0"
    by (rule map_of_append_absent [OF None])
  show ?thesis
    unfolding count_length_def Let_def None option.case a b
    by (simp add: update_append_absent [OF None])
next
  case (Some n)
  then show ?thesis by (simp add: count_length_def Let_def)
qed

lemma count_length_not_Nil: "count_length distribution word \<noteq> []"
proof -
  have "length word \<in> keys (count_length distribution word)"
    by (simp add: count_length_eq split: option.splits)
  then show ?thesis by auto
qed

lemma foldl_count_length_not_Nil:
  "distribution \<noteq> [] \<or> wordlist \<noteq> [] \<Longrightarrow> foldl count_length distribution wordlist \<noteq> []"
  by (induction wordlist arbitrary: distribution) (simp_all add: count_length_not_Nil)

lemma sorted_le_last: "sorted xs \<Longrightarrow> x \<in> set xs \<Longrightarrow> x \<le> last xs"
  by (induction xs) (auto split: if_splits)

lemma cumulate_eq:
  "cumulate distribution cumulative i =
     cumulative @ [last cumulative +
       (case map_of distribution i of
          None \<Rightarrow> 0
        | Some n \<Rightarrow> sqrt (real n / real (sum_list (map snd distribution))))]"
  by (simp add: cumulate_def Let_def split: option.splits)

lemma cumulate_sorted:
  assumes "cumulative \<noteq> []" and "sorted cumulative"
  shows "sorted (cumulate distribution cumulative i)"
    and "hd (cumulate distribution cumulative i) = hd cumulative"
    and "cumulate distribution cumulative i \<noteq> []"
proof -
  have "0 \<le> (case map_of distribution i of
          None \<Rightarrow> 0
        | Some n \<Rightarrow> sqrt (real n / real (sum_list (map snd distribution))))"
    by (simp split: option.splits)
  then have "\<forall>x \<in> set cumulative. x \<le> last cumulative +
       (case map_of distribution i of
          None \<Rightarrow> 0
        | Some n \<Rightarrow> sqrt (real n / real (sum_list (map snd distribution))))"
    using sorted_le_last [OF assms(2)] by fastforce
  with assms(2) show "sorted (cumulate distribution cumulative i)"
    unfolding cumulate_eq by (simp add: sorted_append)
  from assms(1) show "hd (cumulate distribution cumulative i) = hd cumulative"
    unfolding cumulate_eq by simp
  show "cumulate distribution cumulative i \<noteq> []"
    unfolding cumulate_eq by simp
qed

lemma foldl_cumulate_sorted:
  "cumulative \<noteq> [] \<Longrightarrow> sorted cumulative \<Longrightarrow>
   sorted (foldl (cumulate distribution) cumulative is)
   \<and> hd (foldl (cumulate distribution) cumulative is) = hd cumulative
   \<and> foldl (cumulate distribution) cumulative is \<noteq> []"
  by (induction "is" arbitrary: cumulative) (simp_all add: cumulate_sorted)

lemma length_distribution_Inr:
  assumes "wordlist \<noteq> []"
  shows "length_distribution wordlist =
     Inr (foldl (cumulate (sort_key fst (foldl count_length [] wordlist))) [0]
            [1 ..< Max (set (map fst (sort_key fst (foldl count_length [] wordlist)))) + 1])"
proof -
  have "foldl count_length [] wordlist \<noteq> []"
    using assms by (simp add: foldl_count_length_not_Nil)
  then have "length (sort_key fst (foldl count_length [] wordlist)) \<noteq> 0"
    by simp
  then have "sort_key fst (foldl count_length [] wordlist) \<noteq> []"
    by (simp del: length_sort)
  then show ?thesis by (simp add: length_distribution_def Let_def)
qed

text \<open>
  C7. For a word list that is not empty, \<open>length_distribution\<close> returns a sequence whose
  entry at index 0 is 0 and whose entries never decrease: for \<open>i \<le> j\<close> within the
  sequence, the entry at \<open>i\<close> is at most the entry at \<open>j\<close>.
\<close>

theorem length_distribution_monotone:
  assumes "wordlist \<noteq> []"
  shows "\<exists>d. length_distribution wordlist = Inr d \<and> d \<noteq> [] \<and> d ! 0 = 0
    \<and> (\<forall>i j. i \<le> j \<and> j < length d \<longrightarrow> d ! i \<le> d ! j)"
proof -
  define d where "d = foldl (cumulate (sort_key fst (foldl count_length [] wordlist))) [0]
            [1 ..< Max (set (map fst (sort_key fst (foldl count_length [] wordlist)))) + 1]"
  have d: "length_distribution wordlist = Inr d"
    unfolding d_def by (rule length_distribution_Inr [OF assms])
  have "sorted d \<and> hd d = hd [0] \<and> d \<noteq> []"
    unfolding d_def by (rule foldl_cumulate_sorted) simp_all
  then have "sorted d" and "d \<noteq> []" and "d ! 0 = 0"
    by (cases d; simp)+
  with d show ?thesis
    by (auto simp: sorted_iff_nth_mono)
qed

lemma length_distribution_abc_bcd:
  "length_distribution [ustr ''abc'', ustr ''bcd''] = Inr [0, 0, 0, 1]"
  by (simp add: length_distribution_def count_length_eq cumulate_eq upt_rec)

theorem length_distribution_monotone_witness:
  "[ustr ''abc'', ustr ''bcd''] \<noteq> []
   \<and> length_distribution [ustr ''abc'', ustr ''bcd''] = Inr [0, 0, 0, 1]
   \<and> ([0, 0, 0, 1] :: real list) ! 0 = 0
   \<and> ([0, 0, 0, 1] :: real list) ! 2 \<le> [0, 0, 0, 1] ! 3"
  using length_distribution_monotone [of "[ustr ''abc'', ustr ''bcd'']"]
    length_distribution_abc_bcd
  by simp

subsection \<open>One step of the sampling loop\<close>

lemma bisect_right_bounds:
  "lo \<le> hi \<Longrightarrow> lo \<le> bisect_right a x lo hi \<and> bisect_right a x lo hi \<le> hi"
proof (induction a x lo hi rule: bisect_right.induct)
  case (1 a x lo hi)
  show ?case
  proof (cases "lo < hi")
    case False
    then have "bisect_right a x lo hi = lo"
      by (subst bisect_right.simps) simp
    with "1.prems" show ?thesis by simp
  next
    case True
    then have m: "lo \<le> (lo + hi) div 2" "(lo + hi) div 2 + 1 \<le> hi" by arith+
    show ?thesis
    proof (cases "x < a ! ((lo + hi) div 2)")
      case left: True
      have "bisect_right a x lo hi = bisect_right a x lo ((lo + hi) div 2)"
        using True left by (subst bisect_right.simps) (simp add: Let_def)
      with "1.IH"(1) [OF True refl left m(1)] m show ?thesis by arith
    next
      case right: False
      have "bisect_right a x lo hi = bisect_right a x ((lo + hi) div 2 + 1) hi"
        using True right by (subst bisect_right.simps) (simp add: Let_def)
      with "1.IH"(2) [OF True refl right m(2)] m show ?thesis by arith
    qed
  qed
qed

lemma length_accumulate_from [simp]: "length (accumulate_from s ws) = length ws"
  by (induction ws arbitrary: s) simp_all

lemma choices_in_population:
  assumes "choices population weights rs = Some (Inr (c, rs'))"
  shows "c \<in> set population"
proof -
  from assms obtain r where rs: "rs = r # rs'"
    and n: "length (accumulate weights) = length population" "accumulate weights \<noteq> []"
    and c: "c = population ! bisect_right (accumulate weights) (r * last (accumulate weights)) 0
                 (length population - 1)"
    by (cases rs) (auto simp: choices_def Let_def split: if_splits)
  from n have "0 < length population" by auto
  with bisect_right_bounds [of 0 "length population - 1" "accumulate weights"
      "r * last (accumulate weights)"]
  have "bisect_right (accumulate weights) (r * last (accumulate weights)) 0
          (length population - 1) < length population"
    by arith
  then show ?thesis unfolding c by (rule nth_mem)
qed

lemma map_fst_update_present:
  "k \<in> keys al \<Longrightarrow> map fst (AList.update k v al) = map fst al"
  by (induction al) (auto simp: keys_def)

lemma keys_map_real [simp]: "keys (map (\<lambda>(k, n). (k, real n)) w) = keys w"
  by (auto simp: keys_def image_iff split: prod.splits) force+

lemma map_of_map_real:
  "map_of (map (\<lambda>(k, n). (k, real n)) w) c = map_option real (map_of w c)"
  by (induction w) auto

lemma terminator_weights_keys:
  assumes "terminator_weights w distribution word = Inr weights"
  shows "map fst weights = map fst w"
proof -
  have m: "map fst (map (\<lambda>(k, n). (k, real n)) w) = map fst w"
    by (induction w) auto
  have "TERMINATOR \<in> keys (map (\<lambda>(k, n). (k, real n)) w)"
    if "map_of (map (\<lambda>(k, n). (k, real n)) w) TERMINATOR = Some v" for v
    using that by (simp add: keys_map_of del: keys_map_real)
  with assms m show ?thesis
    by (auto simp: terminator_weights_def Let_def map_fst_update_present
        split: option.splits if_splits)
qed

text \<open>
  C5. At a step of the loop of \<open>generate_word\<close>, with the candidates \<open>w\<close> of the context
  and a distribution that is not empty, the weights drawn from have the keys of \<open>w\<close> in
  their order; the terminator, when it is a key, weighs its count times the distribution
  entry at the index \<open>len(word)\<close>, or times the last entry when \<open>len(word)\<close> is past the
  end; every other key weighs its count. The loop draws from exactly these weights.
\<close>

theorem terminator_weight_boost:
  assumes "distribution \<noteq> []"
    and "word \<noteq> []" and "last word \<noteq> TERMINATOR"
    and "map_of model (last_chars cl word) = Some w"
  shows "\<exists>weights.
      terminator_weights w distribution word = Inr weights
      \<and> map fst weights = map fst w
      \<and> map_of weights TERMINATOR =
          map_option (\<lambda>n. real n * (if length word < length distribution
                                      then distribution ! length word else last distribution))
            (map_of w TERMINATOR)
      \<and> (\<forall>c. c \<noteq> TERMINATOR \<longrightarrow> map_of weights c = map_option real (map_of w c))
      \<and> generate_word_loop cl model distribution word rs =
          (case choices (map fst weights) (map snd weights) rs of
             None \<Rightarrow> None
           | Some (Inl e) \<Rightarrow> Some (Inl e)
           | Some (Inr (c, rs')) \<Rightarrow> generate_word_loop cl model distribution (word @ [c]) rs')"
proof -
  from assms(1) have "\<exists>weights. terminator_weights w distribution word = Inr weights"
    by (simp add: terminator_weights_def Let_def split: option.splits)
  then obtain weights where weights: "terminator_weights w distribution word = Inr weights" ..
  have "map_of weights TERMINATOR =
          map_option (\<lambda>n. real n * (if length word < length distribution
                                      then distribution ! length word else last distribution))
            (map_of w TERMINATOR)"
    using weights assms(1)
    by (auto simp: terminator_weights_def Let_def map_of_map_real update_conv'
        split: option.splits if_splits)
  moreover have "map_of weights c = map_option real (map_of w c)" if "c \<noteq> TERMINATOR" for c
    using weights assms(1) that
    by (auto simp: terminator_weights_def Let_def map_of_map_real update_conv'
        split: option.splits if_splits)
  moreover have "generate_word_loop cl model distribution word rs =
          (case choices (map fst weights) (map snd weights) rs of
             None \<Rightarrow> None
           | Some (Inl e) \<Rightarrow> Some (Inl e)
           | Some (Inr (c, rs')) \<Rightarrow> generate_word_loop cl model distribution (word @ [c]) rs')"
    using assms(2-4) weights by (simp add: generate_word_loop.simps [of cl model distribution word rs])
  ultimately show ?thesis
    using weights terminator_weights_keys [OF weights] by blast
qed

subsection \<open>Contexts met while sampling\<close>

lemma last_chars_snoc:
  assumes "0 \<le> cl"
  shows "last_chars cl (xs @ [c]) = last_chars cl (last_chars cl xs @ [c])"
proof (cases "0 < cl")
  case False
  with assms show ?thesis by (simp add: last_chars_def)
next
  case True
  then obtain n where n: "nat cl = Suc n" by (cases "nat cl") auto
  show ?thesis
  proof (cases "length xs \<le> n")
    case True
    with \<open>0 < cl\<close> n show ?thesis by (simp add: last_chars_def)
  next
    case False
    then have "Suc (length xs - Suc n) = length xs - n" by arith
    with False \<open>0 < cl\<close> n show ?thesis
      by (simp add: last_chars_def Suc_diff_le)
  qed
qed

lemma in_transitions:
  "((k, c) \<in> set (transitions cl w)) =
     (\<exists>i. 1 \<le> i \<and> i < length (bounded w) \<and> k = last_chars cl (take i (bounded w))
          \<and> c = bounded w ! i)"
  by (auto simp: transitions_def)

lemma bounded_simps:
  "length (bounded w) = length w + 2" "last (bounded w) = TERMINATOR"
  "bounded w ! 0 = INITIATOR" "bounded w \<noteq> []"
  by (simp_all add: bounded_def)

lemma bounded_nth:
  "1 \<le> i \<Longrightarrow> i < length (bounded w) \<Longrightarrow>
   bounded w ! i = (if i = length w + 1 then TERMINATOR else w ! (i - 1))"
  by (cases i) (auto simp: bounded_def nth_append)

lemma transitions_step:
  assumes "0 \<le> cl" and "(k, c) \<in> set (transitions cl w)" and "c \<noteq> TERMINATOR"
  shows "last_chars cl (k @ [c]) \<in> fst ` set (transitions cl w)"
proof -
  from assms(2) obtain i where i: "1 \<le> i" "i < length (bounded w)"
    and k: "k = last_chars cl (take i (bounded w))" and c: "c = bounded w ! i"
    by (auto simp: in_transitions)
  from i c assms(3) have "i \<noteq> length w + 1" by (auto simp: bounded_nth)
  with i have i': "Suc i < length (bounded w)" by (simp add: bounded_simps)
  have "take (Suc i) (bounded w) = take i (bounded w) @ [c]"
    using i c by (simp add: take_Suc_conv_app_nth)
  then have "last_chars cl (take (Suc i) (bounded w)) = last_chars cl (k @ [c])"
    using last_chars_snoc [OF assms(1)] k by simp
  moreover have "(last_chars cl (take (Suc i) (bounded w)), bounded w ! Suc i)
      \<in> set (transitions cl w)"
    using i' by (auto simp: in_transitions)
  ultimately show ?thesis by (metis fst_conv image_eqI)
qed

lemma initial_context_key:
  assumes "wordlist \<noteq> []"
  shows "last_chars cl [INITIATOR] \<in> keys (build_model cl wordlist)"
proof -
  from assms obtain w where w: "w \<in> set wordlist" by (cases wordlist) auto
  have "take 1 (bounded w) = [INITIATOR]" by (simp add: bounded_def)
  then have "(last_chars cl [INITIATOR], bounded w ! 1) \<in> set (transitions cl w)"
    unfolding in_transitions by (intro exI [of _ 1]) (simp add: bounded_simps)
  with w show ?thesis unfolding keys_build_model by force
qed

lemma drawn_pair:
  assumes "map_of m k = Some w"
    and "terminator_weights w distribution word = Inr weights"
    and "choices (map fst weights) (map snd weights) rs = Some (Inr (c, rs'))"
  shows "(k, c) \<in> pairs m"
proof -
  from choices_in_population [OF assms(3)] terminator_weights_keys [OF assms(2)]
  have "c \<in> keys w" by (simp add: keys_def)
  with assms(1) show ?thesis by (auto simp: pairs_def)
qed

lemma next_context_key:
  assumes "0 \<le> cl" and "(last_chars cl word, c) \<in> pairs (build_model cl wordlist)"
    and "c \<noteq> TERMINATOR"
  shows "last_chars cl (word @ [c]) \<in> keys (build_model cl wordlist)"
proof -
  from assms(2) obtain w where w: "w \<in> set wordlist"
    and "(last_chars cl word, c) \<in> set (transitions cl w)"
    by (auto simp: pairs_build_model)
  from transitions_step [OF assms(1) this(2) assms(3)] w
  have "last_chars cl (last_chars cl word @ [c]) \<in> keys (build_model cl wordlist)"
    unfolding keys_build_model by blast
  then show ?thesis by (simp add: last_chars_snoc [OF assms(1), symmetric])
qed

lemma loop_no_KeyError_closed:
  "(\<forall>word c. (last_chars cl word, c) \<in> pairs m \<longrightarrow> c \<noteq> TERMINATOR
       \<longrightarrow> last_chars cl (word @ [c]) \<in> keys m) \<Longrightarrow>
   word \<noteq> [] \<Longrightarrow>
   last word = TERMINATOR \<or> last_chars cl word \<in> keys m \<Longrightarrow>
   generate_word_loop cl m distribution word rs \<noteq> Some (Inl KeyError)"
proof (induction cl m distribution word rs rule: generate_word_loop.induct)
  case (1 cl m distribution word rs)
  note simps = generate_word_loop.simps [of cl m distribution word rs]
  note closed = "1.prems"(1)
  show ?case
  proof (cases "last word = TERMINATOR")
    case True
    with "1.prems" show ?thesis by (simp add: simps)
  next
    case False
    with "1.prems" obtain w where w: "map_of m (last_chars cl word) = Some w"
      by (auto simp: keys_map_of)
    show ?thesis
    proof (cases "terminator_weights w distribution word")
      case (Inl e)
      then have "e = IndexError"
        by (auto simp: terminator_weights_def Let_def split: option.splits if_splits)
      with Inl False w "1.prems" show ?thesis by (simp add: simps)
    next
      case weights: (Inr weights)
      show ?thesis
      proof (cases "choices (map fst weights) (map snd weights) rs")
        case None
        with weights False w "1.prems" show ?thesis by (simp add: simps)
      next
        case (Some res)
        show ?thesis
        proof (cases res)
          case (Inl e)
          with Some have "e \<noteq> KeyError"
            by (auto simp: choices_def Let_def split: if_splits list.splits)
          with Inl Some weights False w "1.prems" show ?thesis by (simp add: simps)
        next
          case (Inr p)
          obtain c rs' where p: "p = (c, rs')" by (cases p)
          note ch = Some [unfolded Inr p]
          have pair: "(last_chars cl word, c) \<in> pairs m"
            using drawn_pair [OF w weights ch] .
          have inv: "last (word @ [c]) = TERMINATOR \<or> last_chars cl (word @ [c]) \<in> keys m"
            using closed pair by auto
          have "word @ [c] \<noteq> []" by simp
          from "1.IH" [OF "1.prems"(2) False w weights ch refl refl closed this inv]
          have "generate_word_loop cl m distribution (word @ [c]) rs' \<noteq> Some (Inl KeyError)" .
          with ch weights False w "1.prems" show ?thesis by (simp add: simps)
        qed
      qed
    qed
  qed
qed

lemma build_model_closed:
  assumes "0 \<le> cl"
  shows "\<forall>word c. (last_chars cl word, c) \<in> pairs (build_model cl wordlist)
      \<longrightarrow> c \<noteq> TERMINATOR
      \<longrightarrow> last_chars cl (word @ [c]) \<in> keys (build_model cl wordlist)"
  using next_context_key [OF assms] by blast

text \<open>
  C2. For a word list that is not empty and a context length that is not negative (the
  spec asks for a positive one), \<open>generate_word\<close> on the model that \<open>build_model\<close> made
  from that list with that context length never raises \<open>KeyError\<close>, whatever the
  distribution and the random numbers: the loop looks up the context before anything
  else at each step and stops at the first missing one, so every context it looks up is
  a key of the model.
\<close>

theorem no_missing_context:
  assumes "wordlist \<noteq> []" and "0 \<le> cl"
  shows "generate_word cl (build_model cl wordlist) distribution rs \<noteq> Some (Inl KeyError)"
proof -
  have "generate_word_loop cl (build_model cl wordlist) distribution [INITIATOR] rs
      \<noteq> Some (Inl KeyError)"
    by (rule loop_no_KeyError_closed [OF build_model_closed [OF assms(2)]])
      (simp_all add: initial_context_key [OF assms(1)])
  then show ?thesis
    by (auto simp: generate_word_def split: option.splits sum.splits)
qed

subsection \<open>Evaluating the sampler on a two-word vocabulary\<close>

lemma choices_Cons:
  "choices population weights (r # rs) =
     (if length (accumulate weights) \<noteq> length population then Some (Inl ValueError)
      else if accumulate weights = [] then Some (Inl IndexError)
      else if last (accumulate weights) \<le> 0 then Some (Inl ValueError)
      else Some (Inr (population ! bisect_right (accumulate weights)
                         (r * last (accumulate weights)) 0 (length population - 1), rs)))"
  by (simp add: choices_def Let_def)

lemmas build_eval = build_model_def build_word_transitions transitions_eval add_transition_eq

lemmas sample_eval =
  generate_word_def generate_word_loop.simps terminator_weights_def Let_def last_chars_def
  choices_Cons accumulate_def bisect_right.simps strip_def char_defs

lemma model_abc_bcd:
  "build_model 2 [ustr ''abc'', ustr ''bcd''] =
     [(ustr ''#'', [(97, 1), (98, 1)]), (ustr ''#a'', [(98, 1)]), (ustr ''ab'', [(99, 1)]),
      (ustr ''bc'', [(36, 1), (100, 1)]), (ustr ''#b'', [(99, 1)]), (ustr ''cd'', [(36, 1)])]"
  by (simp add: build_eval)

lemma model_bcd_abc:
  "build_model 2 [ustr ''bcd'', ustr ''abc''] =
     [(ustr ''#'', [(98, 1), (97, 1)]), (ustr ''#b'', [(99, 1)]), (ustr ''bc'', [(100, 1), (36, 1)]),
      (ustr ''cd'', [(36, 1)]), (ustr ''#a'', [(98, 1)]), (ustr ''ab'', [(99, 1)])]"
  by (simp add: build_eval)

lemma generate_word_A1:
  "generate_word 2 (build_model 2 [ustr ''abc'', ustr ''bcd'']) [0, 0, 0, 1]
     [1 / 4, 1 / 4, 1 / 4, 3 / 4, 1 / 4, 1 / 4, 3 / 4]
   = Some (Inr (ustr ''abcd'', [1 / 4, 3 / 4]))"
  unfolding model_abc_bcd by (simp add: sample_eval)

lemma generate_word_B1:
  "generate_word 2 (build_model 2 [ustr ''bcd'', ustr ''abc'']) [0, 0, 0, 1]
     [1 / 4, 1 / 4, 1 / 4, 3 / 4, 1 / 4, 1 / 4, 3 / 4]
   = Some (Inr (ustr ''bcd'', [1 / 4, 1 / 4, 3 / 4]))"
  unfolding model_bcd_abc by (simp add: sample_eval)

lemma generate_word_B2:
  "generate_word 2 (build_model 2 [ustr ''bcd'', ustr ''abc'']) [0, 0, 0, 1]
     [1 / 4, 1 / 4, 3 / 4]
   = Some (Inr (ustr ''bc'', []))"
  unfolding model_bcd_abc by (simp add: sample_eval)

end
